theory Spec2Isabelle
  imports Main "HOL-Library.Sublist"
begin

section \<open>JavaScript strings\<close>

text \<open>
  A JavaScript string is modelled as a \<^typ>\<open>string\<close>: one \<^typ>\<open>char\<close> per code unit, for the
  code units U+0000 to U+00FF. The functions below are the \<open>String.prototype\<close> methods
  that \<open>src/index.tsx\<close> calls, with the argument conventions of the language
  (\<open>indexOf\<close> answers \<open>-1\<close> when the character is absent, \<open>substring\<close> clamps its
  arguments to the length of the string and swaps them when they are out of order).
\<close>

definition newline :: char where
  "newline = CHR 0x0A"

definition is_ws :: "char \<Rightarrow> bool" where
  \<comment> \<open>WhiteSpace and LineTerminator of ECMAScript, as far as they lie below U+0100:
      TAB, LF, VT, FF, CR, SP, NBSP.\<close>
  "is_ws c = (c = CHR 0x09 \<or> c = CHR 0x0A \<or> c = CHR 0x0B \<or> c = CHR 0x0C
             \<or> c = CHR 0x0D \<or> c = CHR 0x20 \<or> c = CHR 0xA0)"

definition trim :: "string \<Rightarrow> string" where
  "trim s = rev (dropWhile is_ws (rev (dropWhile is_ws s)))"

definition startsWith :: "string \<Rightarrow> string \<Rightarrow> bool" where
  "startsWith s p = prefix p s"

definition endsWith :: "string \<Rightarrow> string \<Rightarrow> bool" where
  "endsWith s p = suffix p s"

fun indexOf :: "string \<Rightarrow> char \<Rightarrow> int" where
  "indexOf [] c = -1"
| "indexOf (x # xs) c =
     (if x = c then 0
      else (let i = indexOf xs c in if i = -1 then -1 else i + 1))"

definition substring :: "string \<Rightarrow> int \<Rightarrow> int \<Rightarrow> string" where
  "substring s a b =
     (let n = int (length s);
          a' = min (max a 0) n;
          b' = min (max b 0) n;
          lo = min a' b';
          hi = max a' b'
      in take (nat (hi - lo)) (drop (nat lo) s))"

definition substring_from :: "string \<Rightarrow> int \<Rightarrow> string" where
  \<comment> \<open>\<open>s.substring(a)\<close>: the end defaults to the length.\<close>
  "substring_from s a = substring s a (int (length s))"

section \<open>JSON values and the objects the code reads\<close>

text \<open>
  The values \<open>JSON.parse\<close> can return. A number keeps the decimal it was written as,
  mantissa and exponent (\<open>JNumber m e\<close> stands for \<open>m * 10^e\<close>); an object keeps its members
  in source order, and a later member overrides an earlier one of the same name, as
  \<open>JSON.parse\<close> does.
\<close>

datatype json =
    JNull
  | JBool bool
  | JNumber int int
  | JString string
  | JArray "json list"
  | JObject "(string \<times> json) list"

datatype js_error =
    SyntaxError
  | TypeError
  | ApiError string

text \<open>
  \<open>JSON.parse\<close> belongs to the platform, not to the repository: the functions that call it
  take it as the parameter \<open>parse\<close>, \<open>None\<close> standing for the \<open>SyntaxError\<close> it throws.
\<close>

type_synonym json_parser = "string \<Rightarrow> json option"

definition member :: "(string \<times> json) list \<Rightarrow> string \<Rightarrow> json option" where
  \<comment> \<open>the own property of that name; \<open>None\<close> is \<open>undefined\<close>\<close>
  "member kvs k = map_of (rev kvs) k"

fun get_prop :: "json \<Rightarrow> string \<Rightarrow> js_error + json option" where
  \<comment> \<open>\<open>v.k\<close> for the property names read in \<open>src/index.tsx\<close> (term, category, location,
      competitors, services), none of which a prototype defines: reading one from
      \<open>null\<close> throws a \<open>TypeError\<close>, from an object gives the member or \<open>undefined\<close>, from
      any other value gives \<open>undefined\<close>.\<close>
  "get_prop JNull k = Inl TypeError"
| "get_prop (JObject kvs) k = Inr (member kvs k)"
| "get_prop v k = Inr None"

definition number_is_zero :: "int \<Rightarrow> int \<Rightarrow> bool" where
  \<comment> \<open>The decimal \<open>m * 10^e\<close> is the double \<open>0\<close>: it is zero, or it lies at or below
      \<open>2^-1075\<close>, half of the smallest subnormal, and rounds to zero.\<close>
  "number_is_zero m e =
     (m = 0 \<or> (e < 0 \<and> \<bar>m\<bar> * 2 ^ 1075 \<le> 10 ^ nat (- e)))"

fun truthy :: "json option \<Rightarrow> bool" where
  \<comment> \<open>ToBoolean, on \<open>undefined\<close> and on the values of JSON\<close>
  "truthy None = False"
| "truthy (Some JNull) = False"
| "truthy (Some (JBool b)) = b"
| "truthy (Some (JNumber m e)) = (\<not> number_is_zero m e)"
| "truthy (Some (JString s)) = (s \<noteq> [])"
| "truthy (Some (JArray vs)) = True"
| "truthy (Some (JObject kvs)) = True"

section \<open>A decoder for JSON texts\<close>

text \<open>
  An executable decoder for the JSON grammar of ECMA-404, to run the functions of the
  page on concrete lines: white space is TAB, LF, CR and SP; a string may hold any
  character from U+0020 on except the quote and the backslash, and the escapes of the
  grammar (a \<open>\uXXXX\<close> escape is decoded when it names a code unit below U+0100, the
  alphabet of the model); a number is kept as the decimal it is written as. The
  recursion on nested values runs on fuel, two units for each character of the text
  and two more; \<open>JSON_parse_fuel\<close> below shows that no text uses it up.
\<close>

definition is_json_ws :: "char \<Rightarrow> bool" where
  "is_json_ws c = (c = CHR 0x09 \<or> c = CHR 0x0A \<or> c = CHR 0x0D \<or> c = CHR 0x20)"

definition skip_ws :: "string \<Rightarrow> string" where
  "skip_ws s = dropWhile is_json_ws s"

definition is_digit :: "char \<Rightarrow> bool" where
  "is_digit c = (48 \<le> (of_char c :: nat) \<and> (of_char c :: nat) \<le> 57)"

definition digits_val :: "string \<Rightarrow> int" where
  "digits_val ds = foldl (\<lambda>a c. 10 * a + (int (of_char c) - 48)) 0 ds"

definition hex_val :: "char \<Rightarrow> nat option" where
  "hex_val c =
     (let n = (of_char c :: nat)
      in if 48 \<le> n \<and> n \<le> 57 then Some (n - 48)
         else if 65 \<le> n \<and> n \<le> 70 then Some (n - 55)
         else if 97 \<le> n \<and> n \<le> 102 then Some (n - 87)
         else None)"

fun hex4 :: "string \<Rightarrow> nat option" where
  "hex4 [a, b, c, d] =
     (case (hex_val a, hex_val b, hex_val c, hex_val d) of
        (Some x, Some y, Some z, Some w) \<Rightarrow> Some (((x * 16 + y) * 16 + z) * 16 + w)
      | _ \<Rightarrow> None)"
| "hex4 _ = None"

definition escape_char :: "char \<Rightarrow> char option" where
  "escape_char e =
     (if e = CHR 0x22 then Some (CHR 0x22)
      else if e = CHR 0x5C then Some (CHR 0x5C)
      else if e = CHR ''/'' then Some (CHR ''/'')
      else if e = CHR ''b'' then Some (CHR 0x08)
      else if e = CHR ''f'' then Some (CHR 0x0C)
      else if e = CHR ''n'' then Some (CHR 0x0A)
      else if e = CHR ''r'' then Some (CHR 0x0D)
      else if e = CHR ''t'' then Some (CHR 0x09)
      else None)"

definition cons_char :: "char \<Rightarrow> (string \<times> string) option \<Rightarrow> (string \<times> string) option" where
  "cons_char c r = (case r of None \<Rightarrow> None | Some (s, rest) \<Rightarrow> Some (c # s, rest))"

fun parse_chars :: "string \<Rightarrow> (string \<times> string) option" where
  "parse_chars [] = None"
| "parse_chars (c # cs) =
     (if c = CHR 0x22 then Some ([], cs)
      else if c = CHR 0x5C then
        (case cs of
           [] \<Rightarrow> None
         | e # r \<Rightarrow>
             if e = CHR ''u'' then
               (case hex4 (take 4 r) of
                  None \<Rightarrow> None
                | Some n \<Rightarrow> if n < 256 then cons_char (char_of n) (parse_chars (drop 4 r)) else None)
             else (case escape_char e of
                     None \<Rightarrow> None
                   | Some x \<Rightarrow> cons_char x (parse_chars r)))
      else if (of_char c :: nat) < 32 then None
      else cons_char c (parse_chars cs))"

definition parse_fraction :: "string \<Rightarrow> (string \<times> string) option" where
  "parse_fraction s =
     (case s of
        [] \<Rightarrow> Some ([], s)
      | c # r \<Rightarrow>
          if c = CHR ''.'' then
            (if takeWhile is_digit r = [] then None
             else Some (takeWhile is_digit r, dropWhile is_digit r))
          else Some ([], s))"

definition parse_exponent :: "string \<Rightarrow> (int \<times> string) option" where
  "parse_exponent s =
     (case s of
        [] \<Rightarrow> Some (0, s)
      | c # r \<Rightarrow>
          if c = CHR ''e'' \<or> c = CHR ''E'' then
            (let (neg, r') = (case r of
                                [] \<Rightarrow> (False, r)
                              | d # t \<Rightarrow> if d = CHR ''-'' then (True, t)
                                         else if d = CHR ''+'' then (False, t)
                                         else (False, r))
             in if takeWhile is_digit r' = [] then None
                else Some ((if neg then - 1 else 1) * digits_val (takeWhile is_digit r'),
                           dropWhile is_digit r'))
          else Some (0, s))"

definition parse_number :: "string \<Rightarrow> (json \<times> string) option" where
  "parse_number s =
     (let (neg, s1) = (case s of
                         [] \<Rightarrow> (False, s)
                       | c # r \<Rightarrow> if c = CHR ''-'' then (True, r) else (False, s));
          ip = takeWhile is_digit s1
      in if ip = [] \<or> (1 < length ip \<and> hd ip = CHR ''0'') then None
         else (case parse_fraction (dropWhile is_digit s1) of
                 None \<Rightarrow> None
               | Some (fp, s3) \<Rightarrow>
                   (case parse_exponent s3 of
                      None \<Rightarrow> None
                    | Some (ex, s4) \<Rightarrow>
                        Some (JNumber ((if neg then - 1 else 1) * digits_val (ip @ fp))
                                      (ex - int (length fp)), s4))))"

definition parse_literal :: "string \<Rightarrow> (json \<times> string) option" where
  \<comment> \<open>the three literal names, or else a number\<close>
  "parse_literal t =
     (if prefix ''true'' t then Some (JBool True, drop 4 t)
      else if prefix ''false'' t then Some (JBool False, drop 5 t)
      else if prefix ''null'' t then Some (JNull, drop 4 t)
      else parse_number t)"

fun parse_value :: "nat \<Rightarrow> string \<Rightarrow> (json \<times> string) option"
  and parse_elements :: "nat \<Rightarrow> string \<Rightarrow> (json list \<times> string) option"
  and parse_members :: "nat \<Rightarrow> string \<Rightarrow> ((string \<times> json) list \<times> string) option" where
  "parse_value 0 s = None"
| "parse_value (Suc n) s =
     (case skip_ws s of
        [] \<Rightarrow> None
      | c # cs \<Rightarrow>
          if c = CHR ''{'' then
            (case skip_ws cs of
               [] \<Rightarrow> None
             | d # r \<Rightarrow>
                 if d = CHR ''}'' then Some (JObject [], r)
                 else (case parse_members n cs of
                         None \<Rightarrow> None
                       | Some (kvs, r') \<Rightarrow> Some (JObject kvs, r')))
          else if c = CHR ''['' then
            (case skip_ws cs of
               [] \<Rightarrow> None
             | d # r \<Rightarrow>
                 if d = CHR '']'' then Some (JArray [], r)
                 else (case parse_elements n cs of
                         None \<Rightarrow> None
                       | Some (vs, r') \<Rightarrow> Some (JArray vs, r')))
          else if c = CHR 0x22 then
            (case parse_chars cs of
               None \<Rightarrow> None
             | Some (str, r) \<Rightarrow> Some (JString str, r))
          else parse_literal (c # cs))"
| "parse_elements 0 s = None"
| "parse_elements (Suc n) s =
     (case parse_value n s of
        None \<Rightarrow> None
      | Some (v, r) \<Rightarrow>
          (case skip_ws r of
             [] \<Rightarrow> None
           | d # r' \<Rightarrow>
               if d = CHR '','' then
                 (case parse_elements n r' of
                    None \<Rightarrow> None
                  | Some (vs, r'') \<Rightarrow> Some (v # vs, r''))
               else if d = CHR '']'' then Some ([v], r')
               else None))"
| "parse_members 0 s = None"
| "parse_members (Suc n) s =
     (case skip_ws s of
        [] \<Rightarrow> None
      | q # cs \<Rightarrow>
          if q = CHR 0x22 then
            (case parse_chars cs of
               None \<Rightarrow> None
             | Some (k, r) \<Rightarrow>
                 (case skip_ws r of
                    [] \<Rightarrow> None
                  | col # r1 \<Rightarrow>
                      if col = CHR '':'' then
                        (case parse_value n r1 of
                           None \<Rightarrow> None
                         | Some (v, r2) \<Rightarrow>
                             (case skip_ws r2 of
                                [] \<Rightarrow> None
                              | d # r3 \<Rightarrow>
                                  if d = CHR '','' then
                                    (case parse_members n r3 of
                                       None \<Rightarrow> None
                                     | Some (kvs, r4) \<Rightarrow> Some ((k, v) # kvs, r4))
                                  else if d = CHR ''}'' then Some ([(k, v)], r3)
                                  else None))
                      else None))
          else None)"

definition JSON_parse :: json_parser where
  "JSON_parse s =
     (case parse_value (2 * length s + 2) s of
        None \<Rightarrow> None
      | Some (v, rest) \<Rightarrow> if skip_ws rest = [] then Some v else None)"

section \<open>The decode step: \<open>tryParseAndDisplay\<close>\<close>

text \<open>
  What the page shows of a run: the items handed to \<open>addResultToTable\<close>, in order, and
  the lines \<open>console.warn\<close> has logged with the error caught. The cells of the row that
  \<open>addResultToTable\<close> builds for an item are \<open>row_cells\<close>, further down; the conversion
  of a field that is neither a string, a boolean nor \<open>null\<close> to the text of its cell is
  the platform's and stays symbolic there.
\<close>

record ui =
  emitted :: "json list"
  warnings :: "(string \<times> js_error) list"

definition addResultToTable :: "json \<Rightarrow> ui \<Rightarrow> ui" where
  "addResultToTable item u = u\<lparr>emitted := emitted u @ [item]\<rparr>"

definition console_warn :: "string \<Rightarrow> js_error \<Rightarrow> ui \<Rightarrow> ui" where
  "console_warn line e u = u\<lparr>warnings := warnings u @ [(line, e)]\<rparr>"

definition try_block :: "json_parser \<Rightarrow> string \<Rightarrow> ui \<Rightarrow> js_error + ui" where
  \<comment> \<open>lines 199 to 206, the body of the \<open>try\<close>; \<open>Inl\<close> is a throw\<close>
  "try_block parse line u =
     (let sanitizedLine = (if startsWith line ''{'' \<and> endsWith line ''}'' then line else [])
      in if sanitizedLine = [] then Inr u
         else (case parse sanitizedLine of
                 None \<Rightarrow> Inl SyntaxError
               | Some item \<Rightarrow>
                   (case get_prop item ''term'' of
                      Inl e \<Rightarrow> Inl e
                    | Inr t \<Rightarrow>
                        if truthy t then
                          (case get_prop item ''category'' of
                             Inl e \<Rightarrow> Inl e
                           | Inr c \<Rightarrow>
                               if truthy c then Inr (addResultToTable item u) else Inr u)
                        else Inr u)))"

definition tryParseAndDisplay :: "json_parser \<Rightarrow> string \<Rightarrow> ui \<Rightarrow> js_error + ui" where
  \<comment> \<open>the whole function: the \<open>catch\<close> turns every throw of the body into a warning\<close>
  "tryParseAndDisplay parse line u =
     (case try_block parse line u of
        Inl e \<Rightarrow> Inr (console_warn line e u)
      | Inr u' \<Rightarrow> Inr u')"

section \<open>The streaming loop of \<open>handleAnalyzeClick\<close>\<close>

lemma indexOf_bounds: "indexOf s c \<noteq> - 1 \<Longrightarrow> 0 \<le> indexOf s c \<and> indexOf s c < int (length s)"
  by (induction s) (auto simp: Let_def split: if_splits)

lemma substring_from_shorter:
  "0 \<le> i \<Longrightarrow> i < int (length s) \<Longrightarrow> length (substring_from s (i + 1)) < length s"
  by (auto simp: substring_from_def substring_def Let_def min_def max_def)

function scan_lines :: "json_parser \<Rightarrow> string \<Rightarrow> ui \<Rightarrow> js_error + (string \<times> ui)" where
  \<comment> \<open>lines 158 to 165, the inner \<open>while\<close>; it returns the buffer and the page it leaves\<close>
  "scan_lines parse buffer u =
     (let newlineIndex = indexOf buffer newline
      in if newlineIndex \<noteq> - 1 then
           (let line = trim (substring buffer 0 newlineIndex);
                buffer' = substring_from buffer (newlineIndex + 1)
            in case (if line \<noteq> [] then tryParseAndDisplay parse line u else Inr u) of
                 Inl e \<Rightarrow> Inl e
               | Inr u' \<Rightarrow> scan_lines parse buffer' u')
         else Inr (buffer, u))"
  by pat_completeness auto
termination
  by (relation "measure (\<lambda>(parse, buffer, u). length buffer)")
     (auto dest!: indexOf_bounds intro: substring_from_shorter)

definition chunk_text :: "string option \<Rightarrow> string" where
  \<comment> \<open>what \<open>buffer += chunk.text\<close> appends: \<open>chunk.text\<close> is a string or \<open>undefined\<close>\<close>
  "chunk_text chunk = (case chunk of None \<Rightarrow> ''undefined'' | Some t \<Rightarrow> t)"

fun for_await :: "json_parser \<Rightarrow> string option list \<Rightarrow> string \<Rightarrow> ui \<Rightarrow> js_error + (string \<times> ui)" where
  \<comment> \<open>lines 156 to 166, one round for each chunk of the stream\<close>
  "for_await parse [] buffer u = Inr (buffer, u)"
| "for_await parse (chunk # rest) buffer u =
     (case scan_lines parse (buffer @ chunk_text chunk) u of
        Inl e \<Rightarrow> Inl e
      | Inr (buffer', u') \<Rightarrow> for_await parse rest buffer' u')"

definition stream_decode :: "json_parser \<Rightarrow> string option list \<Rightarrow> ui \<Rightarrow> js_error + ui" where
  \<comment> \<open>lines 155 to 169: the buffer starts empty, and what is left of it at the end of
      the stream is decoded once if it is more than white space\<close>
  "stream_decode parse chunks u =
     (case for_await parse chunks [] u of
        Inl e \<Rightarrow> Inl e
      | Inr (buffer, u') \<Rightarrow>
          if trim buffer \<noteq> [] then tryParseAndDisplay parse (trim buffer) u' else Inr u')"


section \<open>The business context: \<open>getBusinessContext\<close> and its caller\<close>

record BusinessContext =
  location :: json
  competitors :: json
  services :: json

fun replace_json_fence :: "string \<Rightarrow> string" where
  \<comment> \<open>\<open>.replace(/```json\n?/, '')\<close>: the first match only, the newline taken when it is there\<close>
  "replace_json_fence [] = []"
| "replace_json_fence (c # cs) =
     (if prefix ''```json'' (c # cs) then
        (let r = drop 7 (c # cs) in if startsWith r [newline] then drop 1 r else r)
      else c # replace_json_fence cs)"

fun replace_fence :: "string \<Rightarrow> string" where
  \<comment> \<open>\<open>.replace(/```/, '')\<close>: the first match only\<close>
  "replace_fence [] = []"
| "replace_fence (c # cs) =
     (if prefix ''```'' (c # cs) then drop 3 (c # cs) else c # replace_fence cs)"

definition or_default :: "json option \<Rightarrow> json \<Rightarrow> json" where
  \<comment> \<open>\<open>v || d\<close>\<close>
  "or_default v d = (case v of None \<Rightarrow> d | Some x \<Rightarrow> if truthy (Some x) then x else d)"

definition cleanJsonText :: "string \<Rightarrow> string" where
  \<comment> \<open>line 92, on the text of the response\<close>
  "cleanJsonText text = trim (replace_fence (replace_json_fence text))"

definition getBusinessContext :: "json_parser \<Rightarrow> js_error + string option \<Rightarrow> js_error + BusinessContext" where
  \<comment> \<open>lines 72 to 101. \<open>response\<close> is what \<open>await ai.models.generateContent(...)\<close> gives:
      \<open>Inl\<close> when the call throws, otherwise \<open>response.text\<close>, a string or \<open>undefined\<close>.
      The prompt, the only use of \<open>websiteUrl\<close>, does not reach the result.\<close>
  "getBusinessContext parse response =
     (case response of
        Inl e \<Rightarrow> Inl e
      | Inr None \<Rightarrow> Inl TypeError
      | Inr (Some text) \<Rightarrow>
          (case parse (cleanJsonText text) of
                None \<Rightarrow> Inl SyntaxError
              | Some parsed \<Rightarrow>
                  (case get_prop parsed ''location'' of
                     Inl e \<Rightarrow> Inl e
                   | Inr l \<Rightarrow>
                       (case get_prop parsed ''competitors'' of
                          Inl e \<Rightarrow> Inl e
                        | Inr c \<Rightarrow>
                            (case get_prop parsed ''services'' of
                               Inl e \<Rightarrow> Inl e
                             | Inr sv \<Rightarrow>
                                 Inr \<lparr>location = or_default l (JString []),
                                      competitors = or_default c (JArray []),
                                      services = or_default sv (JArray [])\<rparr>)))))"

datatype click_outcome =
    Shown string
  | Thrown js_error
  | Context BusinessContext

definition empty_context :: BusinessContext where
  "empty_context = \<lparr>location = JString [], competitors = JArray [], services = JArray []\<rparr>"

definition inferred_context :: "json_parser \<Rightarrow> string \<Rightarrow> js_error + string option \<Rightarrow> js_error + BusinessContext" where
  \<comment> \<open>lines 125 to 130: the resolver runs only when a URL was given\<close>
  "inferred_context parse websiteUrl response =
     (if websiteUrl \<noteq> [] then getBusinessContext parse response else Inr empty_context)"

definition analysis_context :: "json_parser \<Rightarrow> bool \<Rightarrow> string \<Rightarrow> string \<Rightarrow> js_error + string option \<Rightarrow> click_outcome" where
  \<comment> \<open>\<open>handleAnalyzeClick\<close>, lines 108 to 140 and the \<open>catch\<close> of line 185: \<open>Shown\<close> is a
      \<open>displayError\<close> followed by \<open>return\<close>, \<open>Thrown\<close> the error the \<open>catch\<close> reports, \<open>Context\<close>
      the context the run goes on with.\<close>
  "analysis_context parse selectedFile urlValue locationValue response =
     (if \<not> selectedFile then Shown ''Please select a CSV file first.''
      else
        (let websiteUrl = trim urlValue;
             manualLocation = trim locationValue
         in if websiteUrl = [] \<and> manualLocation = [] then
              Shown ''Please provide a Website URL or a manual Targeting Location.''
            else
              (case inferred_context parse websiteUrl response of
                 Inl e \<Rightarrow> Thrown e
               | Inr context \<Rightarrow>
                   (let context' = (if manualLocation \<noteq> []
                                    then context\<lparr>location := JString manualLocation\<rparr>
                                    else context)
                    in if \<not> truthy (Some (location context')) then
                         Shown ''Could not determine a location. Please enter one manually.''
                       else Context context'))))"

section \<open>The rows of the table: \<open>addResultToTable\<close>\<close>






section \<open>The CSV export: \<open>handleCopyCsvClick\<close>\<close>










section \<open>Notions used in the statements\<close>

definition ui0 :: ui where
  \<comment> \<open>the page at the start of a run, after \<open>clearResultsAndErrors\<close>\<close>
  "ui0 = \<lparr>emitted = [], warnings = []\<rparr>"

definition spec_expected_shape :: "json_parser \<Rightarrow> string \<Rightarrow> bool" where
  \<comment> \<open>the words of the specification for the resolver: the text of the response, its
      code fences stripped, parses as the expected JSON shape, an object (which may lack
      any of its three keys)\<close>
  "spec_expected_shape parse text =
     (case parse (cleanJsonText text) of Some (JObject kvs) \<Rightarrow> True | _ \<Rightarrow> False)"






definition object_text :: "string \<Rightarrow> bool" where
  \<comment> \<open>white space apart, the text starts with an opening brace and ends with a closing one\<close>
  "object_text s = (startsWith (trim s) ''{'' \<and> endsWith (trim s) ''}'')"

definition objects_from_braces :: "json_parser \<Rightarrow> bool" where
  \<comment> \<open>what the JSON grammar gives for every decoder of it: only a text that is, white
      space apart, between braces decodes to an object\<close>
  "objects_from_braces parse = (\<forall>s kvs. parse s = Some (JObject kvs) \<longrightarrow> object_text s)"

fun spec_nonempty :: "json option \<Rightarrow> bool" where
  \<comment> \<open>the words of the specification: the field, a string as every field of an
      AnalysisRecord is, is there and is not empty\<close>
  "spec_nonempty (Some (JString s)) = (s \<noteq> [])"
| "spec_nonempty v = False"

definition spec_surfaced :: "json_parser \<Rightarrow> string \<Rightarrow> json list" where
  \<comment> \<open>the words of the specification for the decode step: the record of a line is
      surfaced when the line parses as a JSON object and that object has a non-empty
      \<open>term\<close> and a non-empty \<open>category\<close>; no other line surfaces anything\<close>
  "spec_surfaced parse line =
     (case parse line of
        Some (JObject kvs) \<Rightarrow>
          if spec_nonempty (member kvs ''term'') \<and> spec_nonempty (member kvs ''category'')
          then [JObject kvs] else []
      | _ \<Rightarrow> [])"

fun string_or_absent :: "json option \<Rightarrow> bool" where
  "string_or_absent None = True"
| "string_or_absent (Some (JString s)) = True"
| "string_or_absent v = False"

definition string_fields :: "json_parser \<Rightarrow> string \<Rightarrow> bool" where
  \<comment> \<open>the \<open>term\<close> and the \<open>category\<close> of the line, where it has them, are strings\<close>
  "string_fields parse line =
     (case parse line of
        Some (JObject kvs) \<Rightarrow>
          string_or_absent (member kvs ''term'') \<and> string_or_absent (member kvs ''category'')
      | _ \<Rightarrow> True)"

definition newline_aligned :: "string list \<Rightarrow> bool" where
  \<comment> \<open>each split point of the text, the end of a chunk that is not the last, falls
      immediately after a newline (or at the very start of the text)\<close>
  "newline_aligned parts =
     list_all (\<lambda>k. concat (take k parts) = [] \<or> endsWith (concat (take k parts)) [newline])
       [1..<length parts]"

section \<open>Facts about the string functions\<close>

lemma indexOf_absent: "indexOf s c = - 1 \<longleftrightarrow> c \<notin> set s"
  by (induction s) (auto simp: Let_def dest: indexOf_bounds)

lemma indexOf_takeWhile: "c \<in> set s \<Longrightarrow> indexOf s c = int (length (takeWhile (\<lambda>x. x \<noteq> c) s))"
  by (induction s) (auto simp: Let_def indexOf_absent)

lemma substring_prefix: "n \<le> length s \<Longrightarrow> substring s 0 (int n) = take n s"
  by (simp add: substring_def Let_def min_def max_def)

lemma substring_from_drop: "n \<le> length s \<Longrightarrow> substring_from s (int n) = drop n s"
  by (simp add: substring_from_def substring_def Let_def min_def max_def)

lemma line_before_newline:
  "c \<in> set s \<Longrightarrow> substring s 0 (indexOf s c) = takeWhile (\<lambda>x. x \<noteq> c) s"
  using substring_prefix[of "length (takeWhile (\<lambda>x. x \<noteq> c) s)" s]
  by (simp add: indexOf_takeWhile length_takeWhile_le takeWhile_eq_take[symmetric])

lemma rest_after_newline:
  "c \<in> set s \<Longrightarrow> substring_from s (indexOf s c + 1) = tl (dropWhile (\<lambda>x. x \<noteq> c) s)"
proof -
  assume c: "c \<in> set s"
  let ?n = "length (takeWhile (\<lambda>x. x \<noteq> c) s)"
  have lt: "?n < length s" using c by (induction s) auto
  have "substring_from s (int (Suc ?n)) = drop (Suc ?n) s"
    using lt by (intro substring_from_drop) simp
  moreover have "drop (Suc ?n) s = tl (drop ?n s)" by (simp add: drop_Suc tl_drop)
  moreover have "drop ?n s = dropWhile (\<lambda>x. x \<noteq> c) s" by (simp add: dropWhile_eq_drop)
  ultimately show ?thesis using c by (simp add: indexOf_takeWhile add.commute)
qed

section \<open>Facts about the decoder of JSON texts\<close>

lemma skip_ws_suffix: "suffix (skip_ws s) s"
  by (simp add: skip_ws_def suffix_dropWhile)

lemma skip_ws_Cons_suffix: "skip_ws s = c # r \<Longrightarrow> suffix r s"
  by (metis skip_ws_suffix suffix_ConsD)

lemma cons_char_Some: "cons_char c x = Some (k, r) \<Longrightarrow> \<exists>k'. x = Some (k', r)"
  by (auto simp: cons_char_def split: option.splits)

lemma parse_chars_suffix: "parse_chars s = Some (k, r) \<Longrightarrow> suffix r s"
proof (induction s arbitrary: k r rule: parse_chars.induct)
  case 1
  then show ?case by simp
next
  case (2 c cs)
  show ?case
  proof (cases "c = CHR 0x22")
    case True
    with "2.prems" show ?thesis by (simp add: suffix_ConsI)
  next
    case nq: False
    show ?thesis
    proof (cases "c = CHR 0x5C")
      case True
      then obtain e t where cs: "cs = e # t"
        using "2.prems" nq by (cases cs) auto
      show ?thesis
      proof (cases "e = CHR ''u''")
        case u: True
        then obtain n where h: "hex4 (take 4 t) = Some n" and lt: "n < 256"
          and p: "cons_char (char_of n) (parse_chars (drop 4 t)) = Some (k, r)"
          using "2.prems" nq True cs by (auto split: option.splits if_splits)
        from cons_char_Some[OF p] obtain k' where "parse_chars (drop 4 t) = Some (k', r)" by blast
        then have "suffix r (drop 4 t)"
          using "2.IH"(1)[OF nq True cs u h lt] by blast
        then have "suffix r t" using suffix_drop suffix_order.trans by blast
        then show ?thesis by (simp add: cs suffix_ConsI)
      next
        case nu: False
        then obtain x where ec: "escape_char e = Some x"
          and p: "cons_char x (parse_chars t) = Some (k, r)"
          using "2.prems" nq True cs by (auto split: option.splits)
        from cons_char_Some[OF p] obtain k' where "parse_chars t = Some (k', r)" by blast
        then have "suffix r t" using "2.IH"(2)[OF nq True cs nu ec] by blast
        then show ?thesis by (simp add: cs suffix_ConsI)
      qed
    next
      case nb: False
      then have ctl: "\<not> (of_char c :: nat) < 32"
        and p: "cons_char c (parse_chars cs) = Some (k, r)"
        using "2.prems" nq by (auto split: if_splits)
      from cons_char_Some[OF p] obtain k' where "parse_chars cs = Some (k', r)" by blast
      then have "suffix r cs" using "2.IH"(3)[OF nq nb ctl] by blast
      then show ?thesis by (simp add: suffix_ConsI)
    qed
  qed
qed

lemma parse_fraction_suffix: "parse_fraction s = Some (f, r) \<Longrightarrow> suffix r s"
  by (auto simp: parse_fraction_def suffix_dropWhile suffix_ConsI split: list.splits if_splits)

lemma parse_exponent_suffix: "parse_exponent s = Some (x, r) \<Longrightarrow> suffix r s"
  by (auto simp: parse_exponent_def Let_def suffix_dropWhile suffix_ConsI
           split: list.splits if_splits prod.splits
           intro: suffix_order.trans[OF suffix_dropWhile])

lemma parse_number_result:
  "parse_number s = Some (v, r) \<Longrightarrow> suffix r s \<and> (\<exists>m e. v = JNumber m e)"
proof -
  assume a: "parse_number s = Some (v, r)"
  obtain neg s1 where ns: "(case s of [] \<Rightarrow> (False, s)
       | c # t \<Rightarrow> if c = CHR ''-'' then (True, t) else (False, s)) = (neg, s1)"
    by (metis surj_pair)
  have s1: "suffix s1 s" using ns by (auto split: list.splits if_splits simp: suffix_ConsI)
  from a ns obtain fp s3 ex s4 where
    f: "parse_fraction (dropWhile is_digit s1) = Some (fp, s3)"
    and e: "parse_exponent s3 = Some (ex, s4)"
    and v: "v = JNumber ((if neg then - 1 else 1) * digits_val (takeWhile is_digit s1 @ fp)) (ex - int (length fp))"
    and r: "r = s4"
    by (auto simp: parse_number_def Let_def split: if_splits option.splits)
  have "suffix s4 s3" using e by (rule parse_exponent_suffix)
  moreover have "suffix s3 (dropWhile is_digit s1)" using f by (rule parse_fraction_suffix)
  moreover have "suffix (dropWhile is_digit s1) s1" by (rule suffix_dropWhile)
  ultimately have "suffix s4 s" using s1 by (meson suffix_order.trans)
  with v r show ?thesis by blast
qed


lemma parse_literal_result:
  "parse_literal t = Some (v, r) \<Longrightarrow> suffix r t \<and> (\<forall>kvs. v \<noteq> JObject kvs)"
  by (auto simp: parse_literal_def suffix_drop split: if_splits dest: parse_number_result)

lemma parse_value_step:
  assumes e: "\<And>s vs r. parse_elements n s = Some (vs, r) \<Longrightarrow> suffix r s"
    and m: "\<And>s kvs r. parse_members n s = Some (kvs, r) \<Longrightarrow> suffix r s"
    and p: "parse_value (Suc n) s = Some (v, r)"
  shows "suffix r s"
proof -
  obtain c cs where sk: "skip_ws s = c # cs"
    using p by (cases "skip_ws s") auto
  have cs: "suffix cs s" using sk by (rule skip_ws_Cons_suffix)
  have ccs: "suffix (c # cs) s" using skip_ws_suffix[of s] sk by simp
  consider (obj) "c = CHR ''{''" | (arr) "c \<noteq> CHR ''{''" "c = CHR ''[''"
    | (str) "c \<noteq> CHR ''{''" "c \<noteq> CHR ''[''" "c = CHR 0x22"
    | (other) "c \<noteq> CHR ''{''" "c \<noteq> CHR ''[''" "c \<noteq> CHR 0x22"
    by blast
  then show ?thesis
  proof cases
    case obj
    obtain d t where sk2: "skip_ws cs = d # t"
      using p sk obj by (cases "skip_ws cs") auto
    show ?thesis
    proof (cases "d = CHR ''}''")
      case True
      then have "r = t" using p sk obj sk2 by simp
      then show ?thesis using skip_ws_Cons_suffix[OF sk2] cs suffix_order.trans by blast
    next
      case False
      then obtain kvs where "parse_members n cs = Some (kvs, r)"
        using p sk obj sk2 by (auto split: option.splits)
      then show ?thesis using m cs suffix_order.trans by blast
    qed
  next
    case arr
    obtain d t where sk2: "skip_ws cs = d # t"
      using p sk arr by (cases "skip_ws cs") auto
    show ?thesis
    proof (cases "d = CHR '']''")
      case True
      then have "r = t" using p sk arr sk2 by simp
      then show ?thesis using skip_ws_Cons_suffix[OF sk2] cs suffix_order.trans by blast
    next
      case False
      then obtain vs where "parse_elements n cs = Some (vs, r)"
        using p sk arr sk2 by (auto split: option.splits)
      then show ?thesis using e cs suffix_order.trans by blast
    qed
  next
    case str
    then obtain k where "parse_chars cs = Some (k, r)"
      using p sk by (auto split: option.splits)
    then show ?thesis using parse_chars_suffix cs suffix_order.trans by blast
  next
    case other
    have "parse_literal (c # cs) = Some (v, r)" using p sk other by simp
    then have "suffix r (c # cs)" using parse_literal_result by blast
    then show ?thesis using ccs suffix_order.trans by blast
  qed
qed

lemma parse_elements_step:
  assumes v: "\<And>s v r. parse_value n s = Some (v, r) \<Longrightarrow> suffix r s"
    and e: "\<And>s vs r. parse_elements n s = Some (vs, r) \<Longrightarrow> suffix r s"
    and p: "parse_elements (Suc n) s = Some (vs, r)"
  shows "suffix r s"
proof -
  obtain x r1 where pv: "parse_value n s = Some (x, r1)"
    using p by (auto split: option.splits)
  have r1: "suffix r1 s" using v pv by blast
  obtain d t where sk: "skip_ws r1 = d # t"
    using p pv by (cases "skip_ws r1") auto
  have t: "suffix t s" using skip_ws_Cons_suffix[OF sk] r1 suffix_order.trans by blast
  show ?thesis
  proof (cases "d = CHR '',''")
    case True
    then obtain vs' where "parse_elements n t = Some (vs', r)"
      using p pv sk by (auto split: option.splits)
    then show ?thesis using e t suffix_order.trans by blast
  next
    case False
    then have "r = t" using p pv sk by (auto split: if_splits)
    then show ?thesis using t by simp
  qed
qed

lemma parse_members_shape:
  assumes p: "parse_members (Suc n) s = Some (kvs, r)"
  obtains cs k r0 r1 v r2 d r3 where
    "skip_ws s = CHR 0x22 # cs" "parse_chars cs = Some (k, r0)"
    "skip_ws r0 = CHR '':'' # r1" "parse_value n r1 = Some (v, r2)"
    "skip_ws r2 = d # r3"
    "(d = CHR '','' \<and> (\<exists>kvs'. parse_members n r3 = Some (kvs', r) \<and> kvs = (k, v) # kvs'))
     \<or> (d = CHR ''}'' \<and> r = r3 \<and> kvs = [(k, v)])"
proof -
  obtain q cs where sk: "skip_ws s = q # cs" using p by (cases "skip_ws s") auto
  have q: "q = CHR 0x22" using p sk by (auto split: if_splits)
  obtain k r0 where pc: "parse_chars cs = Some (k, r0)"
    using p sk q by (auto split: option.splits)
  obtain col r1 where sk1: "skip_ws r0 = col # r1"
    using p sk q pc by (cases "skip_ws r0") auto
  have col: "col = CHR '':''" using p sk q pc sk1 by (auto split: if_splits)
  obtain v r2 where pv: "parse_value n r1 = Some (v, r2)"
    using p sk q pc sk1 col by (auto split: option.splits)
  obtain d r3 where sk2: "skip_ws r2 = d # r3"
    using p sk q pc sk1 col pv by (cases "skip_ws r2") auto
  have "(d = CHR '','' \<and> (\<exists>kvs'. parse_members n r3 = Some (kvs', r) \<and> kvs = (k, v) # kvs'))
     \<or> (d = CHR ''}'' \<and> r = r3 \<and> kvs = [(k, v)])"
    using p sk q pc sk1 col pv sk2 by (auto split: option.splits if_splits)
  then show thesis using that sk q pc sk1 col pv sk2 by blast
qed

lemma parse_members_step:
  assumes v: "\<And>s v r. parse_value n s = Some (v, r) \<Longrightarrow> suffix r s"
    and m: "\<And>s kvs r. parse_members n s = Some (kvs, r) \<Longrightarrow> suffix r s"
    and p: "parse_members (Suc n) s = Some (kvs, r)"
  shows "suffix r s"
proof -
  from p obtain cs k r0 r1 x r2 d r3 where
    a: "skip_ws s = CHR 0x22 # cs" and b: "parse_chars cs = Some (k, r0)"
    and c: "skip_ws r0 = CHR '':'' # r1" and d: "parse_value n r1 = Some (x, r2)"
    and e: "skip_ws r2 = d # r3"
    and f: "(d = CHR '','' \<and> (\<exists>kvs'. parse_members n r3 = Some (kvs', r) \<and> kvs = (k, x) # kvs'))
            \<or> (d = CHR ''}'' \<and> r = r3 \<and> kvs = [(k, x)])"
    by (rule parse_members_shape)
  have "suffix r3 r2" using e by (rule skip_ws_Cons_suffix)
  moreover have "suffix r2 r1" using v d by blast
  moreover have "suffix r1 r0" using c by (rule skip_ws_Cons_suffix)
  moreover have "suffix r0 cs" using b by (rule parse_chars_suffix)
  moreover have "suffix cs s" using a by (rule skip_ws_Cons_suffix)
  ultimately have r3: "suffix r3 s" by (meson suffix_order.trans)
  from f show ?thesis
  proof
    assume "d = CHR '','' \<and> (\<exists>kvs'. parse_members n r3 = Some (kvs', r) \<and> kvs = (k, x) # kvs')"
    then show ?thesis using m r3 suffix_order.trans by blast
  next
    assume "d = CHR ''}'' \<and> r = r3 \<and> kvs = [(k, x)]"
    then show ?thesis using r3 by simp
  qed
qed

lemma parse_suffix:
  "(\<forall>s v r. parse_value n s = Some (v, r) \<longrightarrow> suffix r s)
   \<and> (\<forall>s vs r. parse_elements n s = Some (vs, r) \<longrightarrow> suffix r s)
   \<and> (\<forall>s kvs r. parse_members n s = Some (kvs, r) \<longrightarrow> suffix r s)"
proof (induction n)
  case 0
  then show ?case by simp
next
  case (Suc n)
  show ?case
    using Suc.IH parse_value_step[of n] parse_elements_step[of n] parse_members_step[of n]
    by blast
qed

lemma parse_value_suffix: "parse_value n s = Some (v, r) \<Longrightarrow> suffix r s"
  using parse_suffix by blast

text \<open>The fuel is enough: more of it never changes what the decoder answers.\<close>

lemma skip_ws_Cons_shorter: "skip_ws s = c # cs \<Longrightarrow> length cs < length s"
  using suffix_length_le[OF skip_ws_suffix, of s] by simp

lemma parse_value_fuel_cong:
  assumes e: "\<And>t. length t < length s \<Longrightarrow> parse_elements m t = parse_elements n t"
    and k: "\<And>t. length t < length s \<Longrightarrow> parse_members m t = parse_members n t"
  shows "parse_value (Suc m) s = parse_value (Suc n) s"
proof (cases "skip_ws s")
  case Nil
  then show ?thesis by simp
next
  case (Cons c cs)
  then have "length cs < length s" by (rule skip_ws_Cons_shorter)
  then show ?thesis using Cons e[of cs] k[of cs] by (simp split: list.split)
qed

lemma parse_elements_fuel_cong:
  assumes v: "parse_value m s = parse_value n s"
    and e: "\<And>t. length t < length s \<Longrightarrow> parse_elements m t = parse_elements n t"
  shows "parse_elements (Suc m) s = parse_elements (Suc n) s"
proof (cases "parse_value n s")
  case None
  then show ?thesis using v by simp
next
  case (Some a)
  obtain x r where a: "a = (x, r)" by (cases a)
  have r: "length r \<le> length s"
    using Some a parse_value_suffix suffix_length_le by blast
  show ?thesis
  proof (cases "skip_ws r")
    case Nil
    then show ?thesis using v Some a by simp
  next
    case (Cons d r')
    then have "length r' < length s" using skip_ws_Cons_shorter r by fastforce
    then show ?thesis using v Some a Cons e[of r'] by simp
  qed
qed

lemma parse_members_fuel_cong:
  assumes v: "\<And>t. length t < length s \<Longrightarrow> parse_value m t = parse_value n t"
    and k: "\<And>t. length t < length s \<Longrightarrow> parse_members m t = parse_members n t"
  shows "parse_members (Suc m) s = parse_members (Suc n) s"
proof (cases "skip_ws s")
  case Nil
  then show ?thesis by simp
next
  case (Cons q cs)
  then have cs: "length cs < length s" by (rule skip_ws_Cons_shorter)
  show ?thesis
  proof (cases "parse_chars cs")
    case None
    then show ?thesis using Cons by simp
  next
    case (Some a)
    obtain key r0 where a: "a = (key, r0)" by (cases a)
    have r0: "length r0 < length s"
      using Some a parse_chars_suffix suffix_length_le cs by fastforce
    show ?thesis
    proof (cases "skip_ws r0")
      case Nil
      then show ?thesis using Cons Some a by simp
    next
      case c1: (Cons col r1)
      then have r1: "length r1 < length s" using skip_ws_Cons_shorter r0 by fastforce
      show ?thesis
      proof (cases "parse_value n r1")
        case None
        then show ?thesis using Cons Some a c1 v[OF r1] by simp
      next
        case s2: (Some b)
        obtain x r2 where b: "b = (x, r2)" by (cases b)
        have r2: "length r2 < length s"
          using s2 b parse_value_suffix suffix_length_le r1 by fastforce
        show ?thesis
        proof (cases "skip_ws r2")
          case Nil
          then show ?thesis using Cons Some a c1 v[OF r1] s2 b by simp
        next
          case c2: (Cons d r3)
          then have "length r3 < length s" using skip_ws_Cons_shorter r2 by fastforce
          then show ?thesis using Cons Some a c1 v[OF r1] s2 b c2 k[of r3] by simp
        qed
      qed
    qed
  qed
qed

lemma fuel_step:
  "(\<forall>s. 2 * length s + 2 \<le> n \<longrightarrow> parse_value (Suc n) s = parse_value n s)
   \<and> (\<forall>s. 2 * length s + 3 \<le> n \<longrightarrow> parse_elements (Suc n) s = parse_elements n s)
   \<and> (\<forall>s. 2 * length s + 3 \<le> n \<longrightarrow> parse_members (Suc n) s = parse_members n s)"
proof (induction n)
  case 0
  then show ?case by simp
next
  case (Suc n)
  have v: "parse_value (Suc n) t = parse_value n t" if "2 * length t + 2 \<le> n" for t
    using Suc.IH that by blast
  have e: "parse_elements (Suc n) t = parse_elements n t" if "2 * length t + 3 \<le> n" for t
    using Suc.IH that by blast
  have k: "parse_members (Suc n) t = parse_members n t" if "2 * length t + 3 \<le> n" for t
    using Suc.IH that by blast
  have "parse_value (Suc (Suc n)) s = parse_value (Suc n) s" if "2 * length s + 2 \<le> Suc n" for s
    using that by (intro parse_value_fuel_cong e k) simp_all
  moreover have "parse_elements (Suc (Suc n)) s = parse_elements (Suc n) s"
    if "2 * length s + 3 \<le> Suc n" for s
    using that by (intro parse_elements_fuel_cong v e) simp_all
  moreover have "parse_members (Suc (Suc n)) s = parse_members (Suc n) s"
    if "2 * length s + 3 \<le> Suc n" for s
    using that by (intro parse_members_fuel_cong v k) simp_all
  ultimately show ?case by blast
qed

lemma fuel_enough:
  "2 * length s + 2 \<le> n \<Longrightarrow> parse_value n s = parse_value (2 * length s + 2) s"
proof (induction n rule: dec_induct)
  case base
  show ?case by simp
next
  case (step n)
  then show ?case using fuel_step[of n] by simp
qed

lemma JSON_parse_fuel:
  "2 * length s + 2 \<le> n \<Longrightarrow>
   (case parse_value n s of
      None \<Rightarrow> None
    | Some (v, rest) \<Rightarrow> if skip_ws rest = [] then Some v else None) = JSON_parse s"
  by (simp add: JSON_parse_def fuel_enough)

text \<open>An object comes from a text between braces only.\<close>

lemma parse_members_closes:
  "parse_members n s = Some (kvs, r) \<Longrightarrow> \<exists>pre. s = pre @ CHR ''}'' # r"
proof (induction n arbitrary: s kvs r)
  case 0
  then show ?case by simp
next
  case (Suc n)
  from Suc.prems obtain cs k r0 r1 x r2 d r3 where
    a: "skip_ws s = CHR 0x22 # cs" and b: "parse_chars cs = Some (k, r0)"
    and c: "skip_ws r0 = CHR '':'' # r1" and d: "parse_value n r1 = Some (x, r2)"
    and e: "skip_ws r2 = d # r3"
    and f: "(d = CHR '','' \<and> (\<exists>kvs'. parse_members n r3 = Some (kvs', r) \<and> kvs = (k, x) # kvs'))
            \<or> (d = CHR ''}'' \<and> r = r3 \<and> kvs = [(k, x)])"
    by (rule parse_members_shape)
  have dr3: "suffix (d # r3) r2" using skip_ws_suffix[of r2] e by simp
  have "suffix r3 r2" using e by (rule skip_ws_Cons_suffix)
  moreover have r2: "suffix r2 r1" using d parse_value_suffix by blast
  moreover have r1: "suffix r1 r0" using c by (rule skip_ws_Cons_suffix)
  moreover have r0: "suffix r0 cs" using b by (rule parse_chars_suffix)
  moreover have cs: "suffix cs s" using a by (rule skip_ws_Cons_suffix)
  ultimately have r3: "suffix r3 s" by (meson suffix_order.trans)
  have dr3s: "suffix (d # r3) s" using dr3 r2 r1 r0 cs by (meson suffix_order.trans)
  from f show ?case
  proof
    assume "d = CHR '','' \<and> (\<exists>kvs'. parse_members n r3 = Some (kvs', r) \<and> kvs = (k, x) # kvs')"
    then obtain kvs' where "parse_members n r3 = Some (kvs', r)" by blast
    then obtain pre where "r3 = pre @ CHR ''}'' # r" using Suc.IH by blast
    moreover obtain zs where "s = zs @ r3" using r3 by (auto simp: suffix_def)
    ultimately have "s = (zs @ pre) @ CHR ''}'' # r" by simp
    then show ?thesis by blast
  next
    assume "d = CHR ''}'' \<and> r = r3 \<and> kvs = [(k, x)]"
    then show ?thesis using dr3s by (auto simp: suffix_def)
  qed
qed

lemma parse_value_object:
  assumes p: "parse_value n s = Some (JObject kvs, r)"
  shows "\<exists>body. skip_ws s = CHR ''{'' # body @ CHR ''}'' # r"
proof -
  obtain m where n: "n = Suc m" using p by (cases n) auto
  obtain c cs where sk: "skip_ws s = c # cs"
    using p n by (cases "skip_ws s") auto
  have c: "c = CHR ''{''"
  proof (rule ccontr)
    assume nc: "c \<noteq> CHR ''{''"
    show False
    proof (cases "c = CHR ''[''")
      case True
      then show ?thesis using p n sk nc by (auto split: list.splits if_splits option.splits)
    next
      case na: False
      show ?thesis
      proof (cases "c = CHR 0x22")
        case True
        then show ?thesis using p n sk nc na by (auto split: option.splits)
      next
        case False
        then have "parse_literal (c # cs) = Some (JObject kvs, r)" using p n sk nc na by simp
        then show ?thesis using parse_literal_result by blast
      qed
    qed
  qed
  obtain d t where sk2: "skip_ws cs = d # t"
    using p n sk c by (cases "skip_ws cs") auto
  have "\<exists>body. cs = body @ CHR ''}'' # r"
  proof (cases "d = CHR ''}''")
    case True
    then have "r = t" using p n sk c sk2 by simp
    then have "suffix (CHR ''}'' # r) cs" using skip_ws_suffix[of cs] sk2 True by simp
    then show ?thesis by (auto simp: suffix_def)
  next
    case False
    then have "\<exists>kvs'. parse_members m cs = Some (kvs', r)"
      using p n sk c sk2 by (auto split: option.splits)
    then show ?thesis using parse_members_closes by blast
  qed
  then show ?thesis using sk c by auto
qed

lemma JSON_parse_object:
  assumes "JSON_parse s = Some (JObject kvs)"
  shows "\<exists>ws body ws'. s = ws @ CHR ''{'' # body @ CHR ''}'' # ws'
           \<and> (\<forall>c \<in> set ws. is_json_ws c) \<and> (\<forall>c \<in> set ws'. is_json_ws c)"
proof -
  from assms obtain rest where p: "parse_value (2 * length s + 2) s = Some (JObject kvs, rest)"
    and r: "skip_ws rest = []"
    by (auto simp: JSON_parse_def split: option.splits if_splits)
  from parse_value_object[OF p] obtain body where b: "skip_ws s = CHR ''{'' # body @ CHR ''}'' # rest"
    by blast
  have "s = takeWhile is_json_ws s @ skip_ws s" by (simp add: skip_ws_def)
  then have "s = takeWhile is_json_ws s @ CHR ''{'' # body @ CHR ''}'' # rest" using b by simp
  moreover have "\<forall>c \<in> set (takeWhile is_json_ws s). is_json_ws c"
    by (metis set_takeWhileD)
  moreover have "\<forall>c \<in> set rest. is_json_ws c"
    using r by (simp add: skip_ws_def dropWhile_eq_Nil_conv)
  ultimately show ?thesis by blast
qed

lemma dropWhile_padded:
  "(\<forall>c \<in> set ws. P c) \<Longrightarrow> \<not> P a \<Longrightarrow> dropWhile P (ws @ a # rest) = a # rest"
  by (induction ws) auto

lemma trim_padded:
  assumes "\<forall>c \<in> set ws. is_ws c" and "\<forall>c \<in> set ws'. is_ws c"
    and "\<not> is_ws a" and "\<not> is_ws b"
  shows "trim (ws @ a # body @ b # ws') = a # body @ [b]"
proof -
  have 1: "dropWhile is_ws (ws @ a # body @ b # ws') = a # body @ b # ws'"
    using assms(1,3) by (rule dropWhile_padded)
  have "rev (a # body @ b # ws') = rev ws' @ b # (rev body @ [a])" by simp
  moreover have "dropWhile is_ws (rev ws' @ b # (rev body @ [a])) = b # (rev body @ [a])"
    using assms(2,4) by (intro dropWhile_padded) simp_all
  ultimately show ?thesis unfolding trim_def 1 by simp
qed

lemma json_ws_is_ws: "is_json_ws c \<Longrightarrow> is_ws c"
  by (auto simp: is_json_ws_def is_ws_def)

lemma JSON_parse_objects_from_braces: "objects_from_braces JSON_parse"
  unfolding objects_from_braces_def
proof (intro allI impI)
  fix s kvs
  assume "JSON_parse s = Some (JObject kvs)"
  from JSON_parse_object[OF this] obtain ws body ws' where
    s: "s = ws @ CHR ''{'' # body @ CHR ''}'' # ws'"
    and w: "\<forall>c \<in> set ws. is_json_ws c" "\<forall>c \<in> set ws'. is_json_ws c"
    by blast
  have "\<forall>c \<in> set ws. is_ws c" and "\<forall>c \<in> set ws'. is_ws c"
    using w json_ws_is_ws by blast+
  moreover have "\<not> is_ws (CHR ''{'')" and "\<not> is_ws (CHR ''}'')"
    by (simp_all add: is_ws_def)
  ultimately have "trim s = CHR ''{'' # body @ [CHR ''}'']"
    unfolding s by (rule trim_padded)
  then show "object_text s"
    by (simp add: object_text_def startsWith_def endsWith_def suffix_def)
qed

lemma last_dropWhile: "dropWhile P xs \<noteq> [] \<Longrightarrow> last (dropWhile P xs) = last xs"
  by (induction xs) (auto split: if_splits)

lemma dropWhile_id: "xs = [] \<or> \<not> P (hd xs) \<Longrightarrow> dropWhile P xs = xs"
  by (cases xs) auto

lemma trim_trim: "trim (trim s) = trim s"
proof -
  let ?a = "dropWhile is_ws s"
  let ?b = "dropWhile is_ws (rev ?a)"
  have b: "?b = [] \<or> \<not> is_ws (hd ?b)" by (metis hd_dropWhile)
  have "rev ?b = [] \<or> \<not> is_ws (hd (rev ?b))"
  proof (cases "?b = []")
    case False
    then have "last ?b = last (rev ?a)" by (rule last_dropWhile)
    moreover have "?a \<noteq> []"
    proof
      assume e: "?a = []"
      have "?b = []" unfolding e by simp
      with False show False by simp
    qed
    ultimately have "last ?b = hd ?a" by (simp add: last_rev)
    moreover have "\<not> is_ws (hd ?a)" using \<open>?a \<noteq> []\<close> by (metis hd_dropWhile)
    ultimately show ?thesis using False by (simp add: hd_rev)
  qed simp
  then have "dropWhile is_ws (rev ?b) = rev ?b" by (rule dropWhile_id)
  moreover have "dropWhile is_ws ?b = ?b" using b by (rule dropWhile_id)
  ultimately show ?thesis by (simp add: trim_def)
qed

section \<open>Facts about the streaming loop\<close>

declare scan_lines.simps [simp del]

lemma scan_lines_step:
  "scan_lines parse buffer u =
     (if newline \<in> set buffer then
        (case (if trim (takeWhile (\<lambda>x. x \<noteq> newline) buffer) \<noteq> []
               then tryParseAndDisplay parse (trim (takeWhile (\<lambda>x. x \<noteq> newline) buffer)) u
               else Inr u) of
           Inl e \<Rightarrow> Inl e
         | Inr u' \<Rightarrow> scan_lines parse (tl (dropWhile (\<lambda>x. x \<noteq> newline) buffer)) u')
      else Inr (buffer, u))"
  by (subst scan_lines.simps)
     (simp add: Let_def indexOf_absent line_before_newline rest_after_newline)

lemma tryParseAndDisplay_returns: "\<exists>u'. tryParseAndDisplay parse line u = Inr u'"
  by (simp add: tryParseAndDisplay_def split: sum.split)

lemma guarded_decode_returns:
  "\<exists>u1. (if line \<noteq> [] then tryParseAndDisplay parse line u else Inr u) = Inr u1"
  using tryParseAndDisplay_returns[of parse line u] by (cases "line = []") simp_all

lemma scan_lines_returns:
  "\<exists>b u'. scan_lines parse buffer u = Inr (b, u') \<and> newline \<notin> set b"
proof (induction parse buffer u rule: scan_lines.induct)
  case (1 parse buffer u)
  show ?case
  proof (cases "newline \<in> set buffer")
    case False
    then show ?thesis by (subst scan_lines_step) simp
  next
    case True
    let ?line = "trim (takeWhile (\<lambda>x. x \<noteq> newline) buffer)"
    let ?rest = "tl (dropWhile (\<lambda>x. x \<noteq> newline) buffer)"
    obtain u1 where u1: "(if ?line \<noteq> [] then tryParseAndDisplay parse ?line u else Inr u) = Inr u1"
      using guarded_decode_returns by blast
    have idx: "indexOf buffer newline \<noteq> - 1" using True by (simp add: indexOf_absent)
    have "\<exists>b u'. scan_lines parse ?rest u1 = Inr (b, u') \<and> newline \<notin> set b"
      using "1.IH"[OF refl idx refl refl, unfolded line_before_newline[OF True] rest_after_newline[OF True], OF u1] .
    then show ?thesis
      by (subst scan_lines_step) (simp only: True if_True u1 sum.case)
  qed
qed

lemma scan_lines_append:
  "scan_lines parse buffer u = Inr (b, u') \<Longrightarrow>
   scan_lines parse (b @ c) u' = scan_lines parse (buffer @ c) u"
proof (induction parse buffer u rule: scan_lines.induct)
  case (1 parse buffer u)
  show ?case
  proof (cases "newline \<in> set buffer")
    case False
    with "1.prems" show ?thesis by (subst (asm) scan_lines_step) simp
  next
    case True
    let ?line = "trim (takeWhile (\<lambda>x. x \<noteq> newline) buffer)"
    let ?rest = "tl (dropWhile (\<lambda>x. x \<noteq> newline) buffer)"
    obtain u1 where u1: "(if ?line \<noteq> [] then tryParseAndDisplay parse ?line u else Inr u) = Inr u1"
      using guarded_decode_returns by blast
    have idx: "indexOf buffer newline \<noteq> - 1" using True by (simp add: indexOf_absent)
    have "scan_lines parse buffer u = scan_lines parse ?rest u1"
      by (subst scan_lines_step) (simp only: True if_True u1 sum.case)
    then have rest: "scan_lines parse ?rest u1 = Inr (b, u')"
      using "1.prems" by simp
    have ih: "scan_lines parse (b @ c) u' = scan_lines parse (?rest @ c) u1"
      using "1.IH"[OF refl idx refl refl, unfolded line_before_newline[OF True] rest_after_newline[OF True], OF u1 rest] .
    have tw: "takeWhile (\<lambda>x. x \<noteq> newline) (buffer @ c) = takeWhile (\<lambda>x. x \<noteq> newline) buffer"
      using True by simp
    have ne: "dropWhile (\<lambda>x. x \<noteq> newline) buffer \<noteq> []" using True by simp
    have dw: "tl (dropWhile (\<lambda>x. x \<noteq> newline) (buffer @ c)) = ?rest @ c"
      using True ne by simp
    have mem: "newline \<in> set (buffer @ c)" using True by simp
    have "scan_lines parse (buffer @ c) u = scan_lines parse (?rest @ c) u1"
      by (subst scan_lines_step) (simp only: mem if_True tw dw u1 sum.case)
    then show ?thesis using ih by simp
  qed
qed

lemma for_await_concat:
  "newline \<notin> set buffer \<Longrightarrow>
   for_await parse chunks buffer u = scan_lines parse (buffer @ concat (map chunk_text chunks)) u"
proof (induction chunks arbitrary: buffer u)
  case Nil
  then show ?case by (subst scan_lines_step) simp
next
  case (Cons chunk rest)
  obtain b u' where r: "scan_lines parse (buffer @ chunk_text chunk) u = Inr (b, u')" "newline \<notin> set b"
    using scan_lines_returns by blast
  show ?case
    using r Cons.IH[OF r(2)] scan_lines_append[OF r(1)] by simp
qed

lemma stream_decode_single:
  "stream_decode parse chunks u = stream_decode parse [Some (concat (map chunk_text chunks))] u"
  by (simp add: stream_decode_def for_await_concat chunk_text_def del: for_await.simps)


lemma scan_lines_complete:
  "buffer = [] \<or> last buffer = newline \<Longrightarrow> \<exists>u'. scan_lines parse buffer u = Inr ([], u')"
proof (induction parse buffer u rule: scan_lines.induct)
  case (1 parse buffer u)
  show ?case
  proof (cases "newline \<in> set buffer")
    case False
    with "1.prems" have "buffer = []" by (metis last_in_set)
    then show ?thesis by (subst scan_lines_step) simp
  next
    case True
    let ?line = "trim (takeWhile (\<lambda>x. x \<noteq> newline) buffer)"
    let ?rest = "tl (dropWhile (\<lambda>x. x \<noteq> newline) buffer)"
    obtain u1 where u1: "(if ?line \<noteq> [] then tryParseAndDisplay parse ?line u else Inr u) = Inr u1"
      using guarded_decode_returns by blast
    have idx: "indexOf buffer newline \<noteq> - 1" using True by (simp add: indexOf_absent)
    have split: "buffer = takeWhile (\<lambda>x. x \<noteq> newline) buffer @ newline # ?rest"
      using True
      by (metis (mono_tags, lifting) dropWhile_eq_Nil_conv hd_dropWhile list.collapse
          takeWhile_dropWhile_id)
    have "?rest = [] \<or> last ?rest = newline"
    proof (cases "?rest = []")
      case False
      have "last buffer = last ?rest"
        by (subst split) (simp add: False)
      moreover have "buffer \<noteq> []" using True by auto
      ultimately show ?thesis using "1.prems" by simp
    qed simp
    then have "\<exists>u'. scan_lines parse ?rest u1 = Inr ([], u')"
      using "1.IH"[OF refl idx refl refl, unfolded line_before_newline[OF True] rest_after_newline[OF True], OF u1]
      by blast
    then show ?thesis
      by (subst scan_lines_step) (simp only: True if_True u1 sum.case)
  qed
qed

section \<open>Facts about the decode step\<close>

lemma try_block_not_object:
  "\<forall>kvs. parse line \<noteq> Some (JObject kvs) \<Longrightarrow>
   try_block parse line u = Inr u' \<Longrightarrow> u' = u"
  by (cases "parse line"; cases "the (parse line)")
     (auto simp: try_block_def Let_def split: if_splits)

lemma tryParseAndDisplay_emitted_not_object:
  assumes "\<forall>kvs. parse line \<noteq> Some (JObject kvs)"
  shows "\<exists>u'. tryParseAndDisplay parse line u = Inr u' \<and> emitted u' = emitted u"
proof (cases "try_block parse line u")
  case (Inl e)
  then show ?thesis by (simp add: tryParseAndDisplay_def console_warn_def)
next
  case (Inr u')
  then have "u' = u" using try_block_not_object[of parse line u u'] assms by blast
  with Inr show ?thesis by (simp add: tryParseAndDisplay_def)
qed

lemma truthy_string_or_absent: "string_or_absent v \<Longrightarrow> truthy v = spec_nonempty v"
  by (cases v rule: string_or_absent.cases) simp_all

lemma try_block_page:
  "try_block parse line u =
     (case try_block parse line ui0 of
        Inl e \<Rightarrow> Inl e
      | Inr w \<Rightarrow> Inr (u\<lparr>emitted := emitted u @ emitted w\<rparr>))"
  by (simp add: try_block_def addResultToTable_def ui0_def Let_def
           split: option.split sum.split)

section \<open>Facts about the CSV export\<close>









section \<open>Which lines surface a record\<close>

text \<open>
  Claim C1, as the specification states it: a record is surfaced if and only if the
  line parses as a JSON object with a non-empty \<open>term\<close> and a non-empty \<open>category\<close>. The
  code tests the two fields for truthiness, not for being non-empty strings: the
  candidate line below has an empty array for its category, and its record is surfaced.
\<close>

theorem empty_category_surfaced:
  \<open>trim ''{"term":"x","category":[]}'' = ''{"term":"x","category":[]}''
   \<and> JSON_parse ''{"term":"x","category":[]}''
       = Some (JObject [(''term'', JString ''x''), (''category'', JArray [])])
   \<and> spec_surfaced JSON_parse ''{"term":"x","category":[]}'' = []
   \<and> tryParseAndDisplay JSON_parse ''{"term":"x","category":[]}'' ui0
       = Inr \<lparr>emitted = [JObject [(''term'', JString ''x''), (''category'', JArray [])]],
               warnings = []\<rparr>\<close>
  by code_simp

text \<open>
  Claim C1, amended. For a candidate line, a trimmed string as the loop hands it over,
  the decode step returns without throwing, and it surfaces a record if and only if the
  line parses as a JSON object whose \<open>term\<close> and \<open>category\<close> are both truthy; the record
  is that object. Where the two fields are strings or missing, that is: if and only if
  both are non-empty strings, as the specification has it. In particular a line without
  \<open>category\<close> surfaces nothing, and a partial or invalid line is dropped: the step
  returns, so no error reaches the caller and its error display. The decoder is any
  decoder of the JSON grammar, which gives an object only for a text between braces.
\<close>

theorem record_surfaced_iff_truthy:
  assumes "objects_from_braces parse" and "line = trim raw"
  shows "\<exists>u'. tryParseAndDisplay parse line u = Inr u'
            \<and> emitted u' = emitted u @
                 (case parse line of
                    Some (JObject kvs) \<Rightarrow>
                      if truthy (member kvs ''term'') \<and> truthy (member kvs ''category'')
                      then [JObject kvs] else []
                  | _ \<Rightarrow> [])
            \<and> (string_fields parse line \<longrightarrow>
                 emitted u' = emitted u @ spec_surfaced parse line)"
proof (cases "\<exists>kvs. parse line = Some (JObject kvs)")
  case False
  then have "(case parse line of
                    Some (JObject kvs) \<Rightarrow>
                      if truthy (member kvs ''term'') \<and> truthy (member kvs ''category'')
                      then [JObject kvs] else []
                  | _ \<Rightarrow> []) = []" and "spec_surfaced parse line = []"
    by (auto simp: spec_surfaced_def split: option.splits json.splits)
  then show ?thesis
    using tryParseAndDisplay_emitted_not_object[of parse line u] False by auto
next
  case True
  then obtain kvs where p: "parse line = Some (JObject kvs)" by blast
  have "object_text line" using assms(1) p by (simp add: objects_from_braces_def)
  moreover have "trim line = line" using assms(2) by (simp add: trim_trim)
  ultimately have b: "startsWith line ''{''" "endsWith line ''}''"
    by (simp_all add: object_text_def)
  then have ne: "line \<noteq> []" by (auto simp: startsWith_def)
  show ?thesis
    using p b ne
    by (auto simp: tryParseAndDisplay_def try_block_def spec_surfaced_def string_fields_def
          addResultToTable_def truthy_string_or_absent)
qed

theorem record_surfaced_iff_truthy_witness:
  \<open>string_fields JSON_parse ''{"term":"x"}''
   \<and> tryParseAndDisplay JSON_parse ''{"term":"x"}'' ui0 = Inr ui0
   \<and> string_fields JSON_parse ''{"term":"x","category":"y"}''
   \<and> tryParseAndDisplay JSON_parse ''{"term":"x","category":"y"}'' ui0
       = Inr \<lparr>emitted = [JObject [(''term'', JString ''x''), (''category'', JString ''y'')]],
               warnings = []\<rparr>\<close>
proof -
  let ?a = \<open>''{"term":"x"}''\<close>
  let ?b = \<open>''{"term":"x","category":"y"}''\<close>
  have ta: "?a = trim ?a" by code_simp
  have tb: "?b = trim ?b" by code_simp
  have fa: "string_fields JSON_parse ?a" by code_simp
  have fb: "string_fields JSON_parse ?b" by code_simp
  have sa: "spec_surfaced JSON_parse ?a = []" by code_simp
  have sb: "spec_surfaced JSON_parse ?b
              = [JObject [(''term'', JString ''x''), (''category'', JString ''y'')]]"
    by code_simp
  have ea: "tryParseAndDisplay JSON_parse ?a ui0 = Inr ui0" by code_simp
  have eb: "tryParseAndDisplay JSON_parse ?b ui0
       = Inr \<lparr>emitted = [JObject [(''term'', JString ''x''), (''category'', JString ''y'')]],
               warnings = []\<rparr>" by code_simp
  show ?thesis
    using record_surfaced_iff_truthy[OF JSON_parse_objects_from_braces ta, of ui0]
      record_surfaced_iff_truthy[OF JSON_parse_objects_from_braces tb, of ui0] fa fb sa sb ea eb
    by simp
qed

section \<open>Chunk boundaries\<close>

text \<open>
  Claim C8. For every text and every partition of it into chunks, wherever the split
  points fall (inside a line or inside a JSON object as well), the loop leaves the page
  that the whole text as one chunk leaves: the records emitted, and the warnings, depend
  on the concatenation of the chunks only.
\<close>

theorem chunk_boundaries_irrelevant:
  "stream_decode parse (map Some parts) u = stream_decode parse [Some (concat parts)] u"
proof -
  have "concat (map chunk_text (map Some parts)) = concat parts"
    by (simp add: chunk_text_def comp_def)
  then show ?thesis
    using stream_decode_single[of parse "map Some parts" u] by simp
qed

theorem chunk_boundaries_irrelevant_witness:
  \<open>stream_decode JSON_parse
      (map Some [''{"term":"a","cat'',
                 ''egory":"P"}'' @ [newline] @ ''{"te'',
                 ''rm":"b","category":"G"}'']) ui0
    = Inr \<lparr>emitted = [JObject [(''term'', JString ''a''), (''category'', JString ''P'')],
                        JObject [(''term'', JString ''b''), (''category'', JString ''G'')]],
            warnings = []\<rparr>\<close>
proof -
  have "stream_decode JSON_parse
          [Some (concat [''{\"term\":\"a\",\"cat'',
                 ''egory\":\"P\"}'' @ [newline] @ ''{\"te'',
                 ''rm\":\"b\",\"category\":\"G\"}''])] ui0
        = Inr \<lparr>emitted = [JObject [(''term'', JString ''a''), (''category'', JString ''P'')],
                        JObject [(''term'', JString ''b''), (''category'', JString ''G'')]],
            warnings = []\<rparr>"
    by code_simp
  then show ?thesis
    by (simp only: chunk_boundaries_irrelevant)
qed

text \<open>
  Claim C2. Two ways of splitting one text into chunks, each with every split point
  immediately after a newline, give the same sequence of emitted records (and the same
  page altogether).
\<close>

theorem newline_aligned_chunkings_agree:
  assumes "concat ps = text" and "concat qs = text"
    and "newline_aligned ps" and "newline_aligned qs"
  shows "stream_decode parse (map Some ps) u = stream_decode parse (map Some qs) u"
proof -
  have "\<And>xs. concat (map chunk_text (map Some xs)) = concat xs"
    by (simp add: chunk_text_def comp_def)
  then show ?thesis
    using assms(1,2) stream_decode_single[of parse "map Some ps" u]
      stream_decode_single[of parse "map Some qs" u]
    by simp
qed

theorem newline_aligned_chunkings_agree_witness:
  \<open>stream_decode JSON_parse
      (map Some [''{"term":"a","category":"Positive"}'' @ [newline],
                 ''{"term":"b","category":"Generic"}'' @ [newline]]) ui0
    = stream_decode JSON_parse
      (map Some [''{"term":"a","category":"Positive"}'' @ [newline]
                 @ ''{"term":"b","category":"Generic"}'' @ [newline]]) ui0\<close>
proof -
  let ?a = \<open>''{"term":"a","category":"Positive"}'' @ [newline]\<close>
  let ?b = \<open>''{"term":"b","category":"Generic"}'' @ [newline]\<close>
  have 1: "newline_aligned [?a, ?b]"
    by code_simp
  have 2: "newline_aligned [?a @ ?b]"
    by code_simp
  have 3: "concat [?a, ?b] = ?a @ ?b" by simp
  have 4: "concat [?a @ ?b] = ?a @ ?b" by simp
  show ?thesis
    using newline_aligned_chunkings_agree[OF 3 4 1 2, of JSON_parse ui0] by simp
qed


section \<open>The end of the stream\<close>

text \<open>
  Claim C3. Let the streamed text be a run of complete lines followed by a remainder
  that holds no newline. When the remainder is more than white space, the page at the
  end of the stream is the page after the complete lines with the decode step run once
  more, on the trimmed remainder: a last record without a trailing newline is emitted
  after the end of the stream. When the remainder is white space only, nothing more
  is decoded.
\<close>

theorem final_line_flushed:
  assumes "concat (map chunk_text chunks) = complete @ remainder"
    and "complete = [] \<or> last complete = newline"
    and "newline \<notin> set remainder"
  shows "\<exists>u'. stream_decode parse [Some complete] u = Inr u' \<and>
              stream_decode parse chunks u =
                (if trim remainder \<noteq> [] then tryParseAndDisplay parse (trim remainder) u'
                 else Inr u')"
proof -
  obtain u' where c: "scan_lines parse complete u = Inr ([], u')"
    using scan_lines_complete[OF assms(2)] by blast
  have first: "stream_decode parse [Some complete] u = Inr u'"
    using c by (simp add: stream_decode_def chunk_text_def trim_def)
  have "scan_lines parse (complete @ remainder) u = scan_lines parse ([] @ remainder) u'"
    using scan_lines_append[OF c, of remainder] by simp
  also have "\<dots> = Inr (remainder, u')"
    using assms(3) by (subst scan_lines_step) simp
  finally have "for_await parse [Some (complete @ remainder)] [] u = Inr (remainder, u')"
    by (simp add: chunk_text_def)
  then have "stream_decode parse chunks u =
      (if trim remainder \<noteq> [] then tryParseAndDisplay parse (trim remainder) u' else Inr u')"
    using stream_decode_single[of parse chunks u] assms(1)
    by (simp add: stream_decode_def del: for_await.simps)
  with first show ?thesis by blast
qed

theorem final_line_flushed_witness:
  \<open>stream_decode JSON_parse
      [Some (''{"term":"a","category":"P"}'' @ [newline] @ ''{"term":"b",''),
       Some ''"category":"G"}''] ui0
    = tryParseAndDisplay JSON_parse ''{"term":"b","category":"G"}''
        \<lparr>emitted = [JObject [(''term'', JString ''a''), (''category'', JString ''P'')]],
         warnings = []\<rparr>
   \<and> stream_decode JSON_parse
      [Some (''{"term":"a","category":"P"}'' @ [newline] @ ''{"term":"b",''),
       Some ''"category":"G"}''] ui0
    = Inr \<lparr>emitted = [JObject [(''term'', JString ''a''), (''category'', JString ''P'')],
                        JObject [(''term'', JString ''b''), (''category'', JString ''G'')]],
            warnings = []\<rparr>\<close>
proof -
  let ?complete = \<open>''{"term":"a","category":"P"}'' @ [newline]\<close>
  let ?remainder = \<open>''{"term":"b","category":"G"}''\<close>
  let ?chunks = \<open>[Some (''{"term":"a","category":"P"}'' @ [newline] @ ''{"term":"b",''),
                   Some ''"category":"G"}'']\<close>
  have 1: "concat (map chunk_text ?chunks) = ?complete @ ?remainder"
    by (simp add: chunk_text_def)
  have 2: "?complete = [] \<or> last ?complete = newline" by simp
  have 3: "newline \<notin> set ?remainder" by (simp add: newline_def)
  have 4: "trim ?remainder = ?remainder" by code_simp
  have 5: "stream_decode JSON_parse [Some ?complete] ui0
             = Inr \<lparr>emitted = [JObject [(''term'', JString ''a''), (''category'', JString ''P'')]],
                     warnings = []\<rparr>"
    by code_simp
  have 6: "tryParseAndDisplay JSON_parse ?remainder
             \<lparr>emitted = [JObject [(''term'', JString ''a''), (''category'', JString ''P'')]],
              warnings = []\<rparr>
           = Inr \<lparr>emitted = [JObject [(''term'', JString ''a''), (''category'', JString ''P'')],
                        JObject [(''term'', JString ''b''), (''category'', JString ''G'')]],
            warnings = []\<rparr>"
    by code_simp
  from final_line_flushed[OF 1 2 3, of JSON_parse ui0]
  have "stream_decode JSON_parse ?chunks ui0
    = tryParseAndDisplay JSON_parse ?remainder
        \<lparr>emitted = [JObject [(''term'', JString ''a''), (''category'', JString ''P'')]],
         warnings = []\<rparr>"
    unfolding 4 5 by simp
  then show ?thesis using 6 by simp
qed

section \<open>The inner loop\<close>

text \<open>
  Claim C10. Each extraction of the inner loop strictly shortens the buffer, the loop
  returns for every buffer, and the buffer it leaves, at the end of each round of the
  outer loop, holds no newline.
\<close>

theorem inner_loop_drains_buffer:
  "(indexOf buffer newline \<noteq> - 1 \<longrightarrow>
      length (substring_from buffer (indexOf buffer newline + 1)) < length buffer)
   \<and> (\<exists>b u'. scan_lines parse buffer u = Inr (b, u') \<and> indexOf b newline = - 1)
   \<and> (\<exists>b u'. for_await parse chunks [] u = Inr (b, u') \<and> indexOf b newline = - 1)"
proof (intro conjI impI)
  assume "indexOf buffer newline \<noteq> - 1"
  then show "length (substring_from buffer (indexOf buffer newline + 1)) < length buffer"
    using indexOf_bounds substring_from_shorter by blast
next
  show "\<exists>b u'. scan_lines parse buffer u = Inr (b, u') \<and> indexOf b newline = - 1"
    using scan_lines_returns[of parse buffer u] by (simp add: indexOf_absent)
next
  have "for_await parse chunks [] u = scan_lines parse (concat (map chunk_text chunks)) u"
    using for_await_concat[of "[]" parse chunks u] by simp
  then show "\<exists>b u'. for_await parse chunks [] u = Inr (b, u') \<and> indexOf b newline = - 1"
    using scan_lines_returns[of parse "concat (map chunk_text chunks)" u]
    by (simp add: indexOf_absent)
qed

theorem inner_loop_drains_buffer_witness:
  \<open>indexOf (''x'' @ [newline] @ ''{"term":'') newline = 1
   \<and> length (substring_from (''x'' @ [newline] @ ''{"term":'') 2) < length (''x'' @ [newline] @ ''{"term":'')
   \<and> scan_lines JSON_parse (''x'' @ [newline] @ ''{"term":'') ui0 = Inr (''{"term":'', ui0)\<close>
proof -
  let ?b = \<open>''x'' @ [newline] @ ''{"term":''\<close>
  have 1: "indexOf ?b newline = 1" by code_simp
  have 2: "scan_lines JSON_parse ?b ui0 = Inr (''{\"term\":'', ui0)" by code_simp
  show ?thesis
    using inner_loop_drains_buffer[of ?b JSON_parse ui0 "[]"] 1 2 by simp
qed

section \<open>The brace filter and the warnings\<close>

text \<open>
  Claim C9. A line that does not both start with an opening brace and end with a closing
  brace leaves the page as it was: no record and no warning, whatever the decoder would
  have made of the line. A line between braces that the decoder rejects is logged with
  the \<open>SyntaxError\<close>.
\<close>

theorem brace_filter_is_silent:
  "(\<not> (startsWith line ''{'' \<and> endsWith line ''}'') \<longrightarrow>
      tryParseAndDisplay parse line u = Inr u)
   \<and> (startsWith line ''{'' \<and> endsWith line ''}'' \<and> parse line = None \<longrightarrow>
      tryParseAndDisplay parse line u = Inr (u\<lparr>warnings := warnings u @ [(line, SyntaxError)]\<rparr>))"
  by (auto simp: tryParseAndDisplay_def try_block_def console_warn_def Let_def startsWith_def endsWith_def)

theorem brace_filter_is_silent_witness:
  \<open>JSON_parse ''["term"]'' = Some (JArray [JString ''term''])
   \<and> tryParseAndDisplay JSON_parse ''["term"]'' ui0 = Inr ui0
   \<and> tryParseAndDisplay JSON_parse ''{"term"}'' ui0
       = Inr \<lparr>emitted = [], warnings = [(''{"term"}'', SyntaxError)]\<rparr>\<close>
proof -
  have 1: \<open>\<not> (startsWith ''["term"]'' ''{'' \<and> endsWith ''["term"]'' ''}'')\<close> by code_simp
  have 2: \<open>startsWith ''{"term"}'' ''{'' \<and> endsWith ''{"term"}'' ''}'' \<and> JSON_parse ''{"term"}'' = None\<close>
    by code_simp
  have 3: \<open>JSON_parse ''["term"]'' = Some (JArray [JString ''term''])\<close> by code_simp
  show ?thesis
    using brace_filter_is_silent[of \<open>''["term"]''\<close> JSON_parse ui0]
      brace_filter_is_silent[of \<open>''{"term"}''\<close> JSON_parse ui0] 1 2 3
    by (simp add: ui0_def)
qed

text \<open>
  Claim C4. The decode step returns for every line and never throws: a throw inside
  its body becomes a warning that holds the line, and no record. Running it again on a
  line that emitted nothing emits nothing again and does not throw either.
\<close>

theorem decode_never_raises:
  "(\<exists>u'. tryParseAndDisplay parse line u = Inr u')
   \<and> (try_block parse line u = Inl e \<longrightarrow>
        tryParseAndDisplay parse line u = Inr (u\<lparr>warnings := warnings u @ [(line, e)]\<rparr>))
   \<and> (tryParseAndDisplay parse line u = Inr u' \<and> emitted u' = emitted u \<longrightarrow>
        (\<exists>u''. tryParseAndDisplay parse line u' = Inr u'' \<and> emitted u'' = emitted u'))"
proof (intro conjI impI)
  show "\<exists>u'. tryParseAndDisplay parse line u = Inr u'"
    by (rule tryParseAndDisplay_returns)
next
  assume "try_block parse line u = Inl e"
  then show "tryParseAndDisplay parse line u = Inr (u\<lparr>warnings := warnings u @ [(line, e)]\<rparr>)"
    by (simp add: tryParseAndDisplay_def console_warn_def)
next
  assume a: "tryParseAndDisplay parse line u = Inr u' \<and> emitted u' = emitted u"
  show "\<exists>u''. tryParseAndDisplay parse line u' = Inr u'' \<and> emitted u'' = emitted u'"
  proof (cases "try_block parse line ui0")
    case (Inl e)
    then have "tryParseAndDisplay parse line u' = Inr (console_warn line e u')"
      by (subst tryParseAndDisplay_def, subst try_block_page) simp
    then show ?thesis by (simp add: console_warn_def)
  next
    case (Inr w)
    then have "tryParseAndDisplay parse line u = Inr (u\<lparr>emitted := emitted u @ emitted w\<rparr>)"
      by (subst tryParseAndDisplay_def, subst try_block_page) simp
    with a have "emitted w = []" by auto
    moreover have "tryParseAndDisplay parse line u' = Inr (u'\<lparr>emitted := emitted u' @ emitted w\<rparr>)"
      using Inr by (subst tryParseAndDisplay_def, subst try_block_page) simp
    ultimately show ?thesis by simp
  qed
qed

theorem decode_never_raises_witness:
  \<open>tryParseAndDisplay JSON_parse ''{"term": "x"'' ui0 = Inr ui0
   \<and> try_block JSON_parse ''{"term": x}'' ui0 = Inl SyntaxError
   \<and> tryParseAndDisplay JSON_parse ''{"term": x}'' ui0
       = Inr \<lparr>emitted = [], warnings = [(''{"term": x}'', SyntaxError)]\<rparr>
   \<and> (\<exists>u''. tryParseAndDisplay JSON_parse ''{"term": x}''
               \<lparr>emitted = [], warnings = [(''{"term": x}'', SyntaxError)]\<rparr> = Inr u''
            \<and> emitted u'' = [])\<close>
proof -
  have 1: \<open>tryParseAndDisplay JSON_parse ''{"term": "x"'' ui0 = Inr ui0\<close> by code_simp
  have 2: \<open>try_block JSON_parse ''{"term": x}'' ui0 = Inl SyntaxError\<close> by code_simp
  have 3: \<open>tryParseAndDisplay JSON_parse ''{"term": x}'' ui0
       = Inr \<lparr>emitted = [], warnings = [(''{"term": x}'', SyntaxError)]\<rparr>\<close>
    using decode_never_raises[of JSON_parse \<open>''{"term": x}''\<close> ui0 SyntaxError] 2
    by (simp add: ui0_def)
  show ?thesis
    using 1 2 3
      decode_never_raises[of JSON_parse \<open>''{"term": x}''\<close> ui0 SyntaxError
         \<open>\<lparr>emitted = [], warnings = [(''{"term": x}'', SyntaxError)]\<rparr>\<close>]
    by (simp add: ui0_def)
qed


section \<open>The business context\<close>

text \<open>
  Claim C5, as the specification states it: the resolver fails exactly when the call
  throws or the text of the response, its code fences stripped, does not parse as
  the expected JSON shape. The code does not do that: the text \<open>42\<close> is JSON but no object,
  and the resolver returns the context of defaults for it.
\<close>

theorem resolve_accepts_other_shapes:
  \<open>JSON_parse (cleanJsonText ''42'') = Some (JNumber 42 0)
   \<and> \<not> spec_expected_shape JSON_parse ''42''
   \<and> getBusinessContext JSON_parse (Inr (Some ''42''))
       = Inr \<lparr>location = JString [], competitors = JArray [], services = JArray []\<rparr>\<close>
  by code_simp

text \<open>
  Claim C5, amended. The resolver fails exactly when the call throws, when the response
  has no text, when the stripped text is not JSON, or when it is the JSON \<open>null\<close>. Every
  other JSON value gives a context, and each of the three keys that the value lacks
  takes its default, the empty string or the empty sequence.
\<close>

theorem resolve_failure_cases:
  "(getBusinessContext parse response = Inl e \<longleftrightarrow>
      response = Inl e
      \<or> (response = Inr None \<and> e = TypeError)
      \<or> (\<exists>text. response = Inr (Some text)
            \<and> ((parse (cleanJsonText text) = None \<and> e = SyntaxError)
               \<or> (parse (cleanJsonText text) = Some JNull \<and> e = TypeError))))
   \<and> (response = Inr (Some text) \<and> parse (cleanJsonText text) = Some v \<and> v \<noteq> JNull \<longrightarrow>
        (\<exists>c. getBusinessContext parse response = Inr c
           \<and> (get_prop v ''location'' = Inr None \<longrightarrow> location c = JString [])
           \<and> (get_prop v ''competitors'' = Inr None \<longrightarrow> competitors c = JArray [])
           \<and> (get_prop v ''services'' = Inr None \<longrightarrow> services c = JArray [])))"
proof (intro conjI impI)
  show "getBusinessContext parse response = Inl e \<longleftrightarrow>
      response = Inl e
      \<or> (response = Inr None \<and> e = TypeError)
      \<or> (\<exists>text. response = Inr (Some text)
            \<and> ((parse (cleanJsonText text) = None \<and> e = SyntaxError)
               \<or> (parse (cleanJsonText text) = Some JNull \<and> e = TypeError)))"
  proof (cases response)
    case (Inl x)
    then show ?thesis by (simp add: getBusinessContext_def)
  next
    case (Inr t)
    show ?thesis
    proof (cases t)
      case None
      with Inr show ?thesis by (auto simp: getBusinessContext_def)
    next
      case (Some tx)
      show ?thesis
      proof (cases "parse (cleanJsonText tx)")
        case None
        with Inr \<open>t = Some tx\<close> show ?thesis by (auto simp: getBusinessContext_def)
      next
        case (Some v)
        with Inr \<open>t = Some tx\<close> show ?thesis
          by (cases v) (auto simp: getBusinessContext_def)
      qed
    qed
  qed
next
  assume a: "response = Inr (Some text) \<and> parse (cleanJsonText text) = Some v \<and> v \<noteq> JNull"
  then show "\<exists>c. getBusinessContext parse response = Inr c
           \<and> (get_prop v ''location'' = Inr None \<longrightarrow> location c = JString [])
           \<and> (get_prop v ''competitors'' = Inr None \<longrightarrow> competitors c = JArray [])
           \<and> (get_prop v ''services'' = Inr None \<longrightarrow> services c = JArray [])"
    by (cases v) (auto simp: getBusinessContext_def or_default_def)
qed

theorem resolve_failure_cases_witness:
  \<open>getBusinessContext JSON_parse
      (Inr (Some (''```json'' @ [newline] @ ''{"location":"Austin"}'' @ [newline] @ ''```'')))
     = Inr \<lparr>location = JString ''Austin'', competitors = JArray [], services = JArray []\<rparr>
   \<and> getBusinessContext JSON_parse (Inr (Some ''null'')) = Inl TypeError
   \<and> getBusinessContext JSON_parse (Inr (Some ''Sorry, no data'')) = Inl SyntaxError\<close>
proof -
  let ?t = \<open>''```json'' @ [newline] @ ''{"location":"Austin"}'' @ [newline] @ ''```''\<close>
  have p: \<open>JSON_parse (cleanJsonText ?t) = Some (JObject [(''location'', JString ''Austin'')])\<close>
    by code_simp
  have n: \<open>JSON_parse (cleanJsonText ''null'') = Some JNull\<close> by code_simp
  have x: \<open>JSON_parse (cleanJsonText ''Sorry, no data'') = None\<close> by code_simp
  have v: \<open>getBusinessContext JSON_parse (Inr (Some ?t))
     = Inr \<lparr>location = JString ''Austin'', competitors = JArray [], services = JArray []\<rparr>\<close>
    by code_simp
  show ?thesis
    using v p n x
      resolve_failure_cases[of JSON_parse \<open>Inr (Some ?t)\<close> TypeError ?t
         \<open>JObject [(''location'', JString ''Austin'')]\<close>]
      resolve_failure_cases[of JSON_parse \<open>Inr (Some ''null'')\<close> TypeError]
      resolve_failure_cases[of JSON_parse \<open>Inr (Some ''Sorry, no data'')\<close> SyntaxError]
    by simp
qed

text \<open>
  Claim C6. When a manual location is given, the run goes on with the inferred context
  with its location replaced by the manual one: the competitors and the services are
  those inferred.
\<close>

theorem manual_location_overrides_location_only:
  assumes "inferred_context parse (trim urlValue) response = Inr inferred"
    and "trim locationValue \<noteq> []"
  shows "analysis_context parse True urlValue locationValue response
           = Context (inferred\<lparr>location := JString (trim locationValue)\<rparr>)
         \<and> competitors (inferred\<lparr>location := JString (trim locationValue)\<rparr>) = competitors inferred
         \<and> services (inferred\<lparr>location := JString (trim locationValue)\<rparr>) = services inferred"
  using assms by (simp add: analysis_context_def Let_def)

theorem manual_location_overrides_location_only_witness:
  \<open>inferred_context JSON_parse (trim ''https://acme.example'')
      (Inr (Some ''{"location":"Austin","competitors":["A","B"],"services":["x"]}''))
     = Inr \<lparr>location = JString ''Austin'',
             competitors = JArray [JString ''A'', JString ''B''],
             services = JArray [JString ''x'']\<rparr>
   \<and> analysis_context JSON_parse True ''https://acme.example'' '' Boston ''
      (Inr (Some ''{"location":"Austin","competitors":["A","B"],"services":["x"]}''))
     = Context \<lparr>location = JString ''Boston'',
                 competitors = JArray [JString ''A'', JString ''B''],
                 services = JArray [JString ''x'']\<rparr>\<close>
proof -
  let ?r = \<open>Inr (Some ''{"location":"Austin","competitors":["A","B"],"services":["x"]}'') :: js_error + string option\<close>
  let ?c = \<open>\<lparr>location = JString ''Austin'',
             competitors = JArray [JString ''A'', JString ''B''],
             services = JArray [JString ''x'']\<rparr>\<close>
  have 1: \<open>inferred_context JSON_parse (trim ''https://acme.example'') ?r = Inr ?c\<close>
    by code_simp
  have 2: \<open>trim '' Boston '' = ''Boston''\<close> by code_simp
  have 3: \<open>trim '' Boston '' \<noteq> []\<close> unfolding 2 by simp
  show ?thesis
    using manual_location_overrides_location_only[OF 1 3] 1 unfolding 2 by simp
qed

section \<open>The CSV export\<close>




end
